theory Spec2Isabelle
  imports Main
begin

section \<open>JavaScript strings and the regular expressions the sources use\<close>

text \<open>
  A JavaScript string is a sequence of code units. The embedding reads a HOL \<open>char\<close> as
  the code unit of the same number, so it covers the strings over U+0000..U+00FF; every
  statement below about "every string" ranges over these. Within that range the character
  classes and \<open>toLowerCase\<close> are those of ECMAScript.
\<close>

definition code :: "char \<Rightarrow> nat" where
  "code c = of_char c"

definition isWhitespace :: "char \<Rightarrow> bool" where
  \<comment> \<open>the class \<open>\s\<close>: TAB, LF, VT, FF, CR, SPACE and NO-BREAK SPACE\<close>
  "isWhitespace c = (code c \<in> {9, 10, 11, 12, 13, 32, 160})"

definition isLowerAZ :: "char \<Rightarrow> bool" where
  \<comment> \<open>the class \<open>[a-z]\<close>\<close>
  "isLowerAZ c = (97 \<le> code c \<and> code c \<le> 122)"

definition isUpperAZ :: "char \<Rightarrow> bool" where
  \<comment> \<open>the class \<open>[A-Z]\<close>\<close>
  "isUpperAZ c = (65 \<le> code c \<and> code c \<le> 90)"

definition isDigit :: "char \<Rightarrow> bool" where
  \<comment> \<open>the class \<open>[0-9]\<close>\<close>
  "isDigit c = (48 \<le> code c \<and> code c \<le> 57)"

definition isAlnum :: "char \<Rightarrow> bool" where
  \<comment> \<open>the class \<open>[a-zA-Z0-9]\<close>\<close>
  "isAlnum c = (isLowerAZ c \<or> isUpperAZ c \<or> isDigit c)"

definition isHyphen :: "char \<Rightarrow> bool" where
  "isHyphen c = (c = CHR ''-'')"

definition isSpaceUnderscore :: "char \<Rightarrow> bool" where
  \<comment> \<open>the class \<open>[\s_]\<close>\<close>
  "isSpaceUnderscore c = (isWhitespace c \<or> c = CHR ''_'')"

definition isSeparator3 :: "char \<Rightarrow> bool" where
  \<comment> \<open>the class \<open>[\s_-]\<close>\<close>
  "isSeparator3 c = (isWhitespace c \<or> c = CHR ''_'' \<or> c = CHR ''-'')"

definition isSeparator4 :: "char \<Rightarrow> bool" where
  \<comment> \<open>the class \<open>[\s_\-.]\<close>\<close>
  "isSeparator4 c = (isWhitespace c \<or> c = CHR ''_'' \<or> c = CHR ''-'' \<or> c = CHR ''.'')"

definition toLowerChar :: "char \<Rightarrow> char" where
  \<comment> \<open>A-Z, and the Latin-1 capitals U+00C0..U+00DE except the multiplication sign\<close>
  "toLowerChar c =
     (if isUpperAZ c \<or> (192 \<le> code c \<and> code c \<le> 222 \<and> code c \<noteq> 215)
      then char_of (code c + 32) else c)"

definition toLowerCase :: "string \<Rightarrow> string" where
  "toLowerCase s = map toLowerChar s"

definition toUpperChar :: "char \<Rightarrow> string" where
  \<comment> \<open>\<open>toUpperCase\<close> of a one-unit string: a-z and U+00E0..U+00FE except the division
      sign lose 32, U+00DF becomes SS. The capitals of U+00B5 and U+00FF lie above U+00FF
      (U+039C, U+0178); the model leaves these two unchanged, and no statement below
      depends on them.\<close>
  "toUpperChar c =
     (if isLowerAZ c \<or> (224 \<le> code c \<and> code c \<le> 254 \<and> code c \<noteq> 247)
      then [char_of (code c - 32)]
      else if code c = 223 then ''SS'' else [c])"

text \<open>\<open>str.replace(/([a-z])([A-Z])/g, '$1-$2')\<close>: the scan resumes after each match.\<close>

fun replaceLowerUpper :: "string \<Rightarrow> string" where
  "replaceLowerUpper (x # y # zs) =
     (if isLowerAZ x \<and> isUpperAZ y then x # CHR ''-'' # y # replaceLowerUpper zs
      else x # replaceLowerUpper (y # zs))"
| "replaceLowerUpper xs = xs"

text \<open>\<open>str.replace(/[class]+/g, rep)\<close>: each maximal run of the class becomes \<open>rep\<close>.\<close>

function replaceRuns :: "(char \<Rightarrow> bool) \<Rightarrow> string \<Rightarrow> string \<Rightarrow> string" where
  "replaceRuns p rep [] = []"
| "replaceRuns p rep (x # xs) =
     (if p x then rep @ replaceRuns p rep (dropWhile p xs) else x # replaceRuns p rep xs)"
  by pat_completeness auto
termination
  by (relation "measure (\<lambda>(p, rep, xs). length xs)")
     (auto simp: less_Suc_eq_le length_dropWhile_le)

text \<open>\<open>str.replace(/^[class]+|[class]+$/g, '')\<close>: the leading and the trailing run go.\<close>

definition stripRuns :: "(char \<Rightarrow> bool) \<Rightarrow> string \<Rightarrow> string" where
  "stripRuns p s = rev (dropWhile p (rev (dropWhile p s)))"

text \<open>
  \<open>str.split(/[class]+/)\<close>: the pieces between the maximal runs of the class, the empty
  pieces before a leading and after a trailing run included; the empty string gives one
  empty piece.
\<close>

function splitRuns :: "(char \<Rightarrow> bool) \<Rightarrow> string \<Rightarrow> string list" where
  "splitRuns p [] = [[]]"
| "splitRuns p (x # xs) =
     (if p x then [] # splitRuns p (dropWhile p xs)
      else (case splitRuns p xs of w # ws \<Rightarrow> (x # w) # ws | [] \<Rightarrow> [[x]]))"
  by pat_completeness auto
termination
  by (relation "measure (\<lambda>(p, xs). length xs)")
     (auto simp: less_Suc_eq_le length_dropWhile_le)

text \<open>\<open>str.split(/[class]+/).filter(word => word.length > 0)\<close>\<close>

definition nonEmptyPieces :: "(char \<Rightarrow> bool) \<Rightarrow> string \<Rightarrow> string list" where
  "nonEmptyPieces p s = filter (\<lambda>word. length word > 0) (splitRuns p s)"

text \<open>\<open>str.trim()\<close> removes the whitespace at both ends.\<close>

definition trim :: "string \<Rightarrow> string" where
  "trim s = stripRuns isWhitespace s"

section \<open>Values and errors\<close>

datatype js_value = JString string | JNumber int | JBoolean bool | JNull | JUndefined | JObject

fun typeof :: "js_value \<Rightarrow> string" where
  "typeof (JString _) = ''string''"
| "typeof (JNumber _) = ''number''"
| "typeof (JBoolean _) = ''boolean''"
| "typeof JNull = ''object''"
| "typeof JUndefined = ''undefined''"
| "typeof JObject = ''object''"

datatype js_error = Error string

section \<open>toKebabCase (backend/routes/api/comments.js)\<close>

definition toKebabCase :: "js_value \<Rightarrow> js_error + string" where
  "toKebabCase v =
     (case v of
        JString str \<Rightarrow>
          (let result = replaceLowerUpper str;
               result = toLowerCase result;
               result = replaceRuns isSpaceUnderscore ''-'' result;
               result = stripRuns isHyphen result;
               result = replaceRuns isHyphen ''-'' result
           in Inr result)
      | _ \<Rightarrow> Inl (Error (''Expected a string, but received: '' @ typeof v)))"

text \<open>The string that \<open>toKebabCase\<close> returns for a string argument.\<close>

definition kebabString :: "string \<Rightarrow> string" where
  "kebabString s = replaceRuns isHyphen ''-'' (stripRuns isHyphen
     (replaceRuns isSpaceUnderscore ''-'' (toLowerCase (replaceLowerUpper s))))"

text \<open>Two hyphens in a row.\<close>

fun adjacentHyphens :: "string \<Rightarrow> bool" where
  "adjacentHyphens (x # y # zs) = ((x = CHR ''-'' \<and> y = CHR ''-'') \<or> adjacentHyphens (y # zs))"
| "adjacentHyphens xs = False"

text \<open>\<open>str.replace(/[class]/g, '')\<close> removes every character of the class.\<close>

definition removeChars :: "(char \<Rightarrow> bool) \<Rightarrow> string \<Rightarrow> string" where
  "removeChars p s = filter (\<lambda>c. \<not> p c) s"

text \<open>\<open>words.join(sep)\<close>\<close>

fun join :: "string \<Rightarrow> string list \<Rightarrow> string" where
  "join sep [] = []"
| "join sep [w] = w"
| "join sep (w # ws) = w @ sep @ join sep ws"

text \<open>\<open>s.toUpperCase()\<close>, \<open>s.charAt(0)\<close> and \<open>s.slice(1)\<close>\<close>

definition toUpperCase :: "string \<Rightarrow> string" where
  "toUpperCase s = concat (map toUpperChar s)"

definition charAt0 :: "string \<Rightarrow> string" where
  "charAt0 s = take 1 s"

definition slice1 :: "string \<Rightarrow> string" where
  "slice1 s = drop 1 s"

section \<open>toCamelCase (few\_shot\_prompt.js) and toCamelCase, toDotCase (unnamed/part\_001)\<close>

text \<open>
  The callback of \<open>words.map((word, index) => ...)\<close>, the same text in both
  \<open>toCamelCase\<close> functions.
\<close>

definition camelCallback :: "string \<Rightarrow> nat \<Rightarrow> string" where
  "camelCallback word index =
     (let lowerWord = toLowerCase word
      in if index = 0 then lowerWord
         else toUpperCase (charAt0 lowerWord) @ slice1 lowerWord)"

definition mapIndexed :: "(string \<Rightarrow> nat \<Rightarrow> string) \<Rightarrow> string list \<Rightarrow> string list" where
  "mapIndexed f ws = map (\<lambda>(index, word). f word index) (enumerate 0 ws)"

text \<open>
  The function of few\_shot\_prompt.js has no type guard and is modelled on strings, the
  inputs that \<open>split\<close> is defined for.
\<close>

definition few_shot_toCamelCase :: "string \<Rightarrow> string" where
  "few_shot_toCamelCase str =
     (let words = splitRuns isSeparator3 str
      in join [] (mapIndexed camelCallback words))"

definition keptChar :: "char \<Rightarrow> bool" where
  \<comment> \<open>the complement of the class \<open>[^a-zA-Z0-9\s_\-.]\<close>\<close>
  "keptChar c = (isAlnum c \<or> isSeparator4 c)"

definition toCamelCase :: "js_value \<Rightarrow> js_error + string" where
  "toCamelCase v =
     (case v of
        JString str \<Rightarrow>
          if trim str = [] \<or> removeChars isSeparator4 str = [] then Inr []
          else
            (let cleaned = filter keptChar str;
                 cleaned = stripRuns isSeparator4 cleaned;
                 words = filter (\<lambda>word. length word > 0) (splitRuns isSeparator4 cleaned)
             in if length words = 0 then Inr []
                else Inr (join [] (mapIndexed camelCallback words)))
      | _ \<Rightarrow> Inl (Error (''Input must be a string, received: '' @ typeof v)))"

definition toDotCase :: "js_value \<Rightarrow> js_error + string" where
  "toDotCase v =
     (case v of
        JString str \<Rightarrow>
          if trim str = [] \<or> removeChars isSeparator4 str = [] then Inr []
          else
            (let cleaned = filter keptChar str;
                 cleaned = stripRuns isSeparator4 cleaned;
                 words = filter (\<lambda>word. length word > 0) (splitRuns isSeparator4 cleaned)
             in if length words = 0 then Inr []
                else Inr (join ''.'' (map toLowerCase words)))
      | _ \<Rightarrow> Inl (Error (''Input must be a string, received: '' @ typeof v)))"

text \<open>
  The words that \<open>toCamelCase\<close> and \<open>toDotCase\<close> of unnamed/part\_001 compute
  once the guards are passed, by the same three statements in both.
\<close>

definition cleanedWords :: "string \<Rightarrow> string list" where
  "cleanedWords str =
     (let cleaned = filter keptChar str;
          cleaned = stripRuns isSeparator4 cleaned
      in filter (\<lambda>word. length word > 0) (splitRuns isSeparator4 cleaned))"

section \<open>The comment routes (backend/routes/api/comments.js)\<close>

type_synonym object_id = string

record comment =
  cid :: object_id
  body :: string
  seller :: object_id
  item :: object_id

text \<open>
  The persistence layer is the Mongoose model \<open>Comment\<close>, a library outside the
  repository. A call resolves or rejects; \<open>fault\<close> is the error with which the store
  currently rejects a call, if any. \<open>find\<close> resolves to every document.
  \<open>findByIdAndDelete\<close> first casts the id to an ObjectId, and rejects with a cast
  error when the string is none: an ObjectId is written as 24 hexadecimal digits, and the
  driver also takes a string of 12 characters for its 12 bytes. Then it removes the
  document with the given id and resolves to it, or to null when there is none.
\<close>

definition isHexDigit :: "char \<Rightarrow> bool" where
  "isHexDigit c = (isDigit c \<or> (97 \<le> code c \<and> code c \<le> 102) \<or> (65 \<le> code c \<and> code c \<le> 70))"

definition isObjectId :: "string \<Rightarrow> bool" where
  "isObjectId i = (length i = 12 \<or> (length i = 24 \<and> list_all isHexDigit i))"

datatype 'a outcome = Fulfilled 'a | Rejected js_error

record store =
  comments :: "comment list"
  fault :: "js_error option"

definition Comment_find :: "store \<Rightarrow> comment list outcome" where
  "Comment_find db =
     (case fault db of Some err \<Rightarrow> Rejected err | None \<Rightarrow> Fulfilled (comments db))"

definition Comment_findByIdAndDelete ::
  "store \<Rightarrow> object_id \<Rightarrow> comment option outcome \<times> store" where
  "Comment_findByIdAndDelete db i =
     (if \<not> isObjectId i
      then (Rejected (Error (''Cast to ObjectId failed for value '' @ i)), db)
      else
        (case fault db of
           Some err \<Rightarrow> (Rejected err, db)
         | None \<Rightarrow>
             (case find (\<lambda>c. cid c = i) (comments db) of
                None \<Rightarrow> (Fulfilled None, db)
              | Some c \<Rightarrow> (Fulfilled (Some c), db\<lparr>comments := remove1 c (comments db)\<rparr>))))"

text \<open>
  A request carries the route parameter \<open>id\<close> and, when an authentication middleware ran
  before the handler, the identity of the caller. Neither route of this file installs
  such a middleware and neither handler reads the identity.
\<close>

record request =
  params_id :: object_id
  payload_id :: "object_id option"

datatype json = JsonComments "comment list" | JsonError string | NoBody

record response =
  status :: nat
  json_body :: json

definition router_get :: "store \<Rightarrow> request \<Rightarrow> response" where
  "router_get db req =
     (case Comment_find db of
        Fulfilled cs \<Rightarrow> \<lparr>status = 200, json_body = JsonComments cs\<rparr>
      | Rejected err \<Rightarrow> \<lparr>status = 500, json_body = JsonError ''Failed to fetch comments''\<rparr>)"

definition router_delete :: "store \<Rightarrow> request \<Rightarrow> response \<times> store" where
  "router_delete db req =
     (case Comment_findByIdAndDelete db (params_id req) of
        (Fulfilled None, db') \<Rightarrow>
          (\<lparr>status = 404, json_body = JsonError ''Comment not found''\<rparr>, db')
      | (Fulfilled (Some c), db') \<Rightarrow> (\<lparr>status = 204, json_body = NoBody\<rparr>, db')
      | (Rejected err, db') \<Rightarrow>
          (\<lparr>status = 500, json_body = JsonError ''Failed to delete comment''\<rparr>, db'))"

section \<open>The catalogue: favourites and slug assignment\<close>

text \<open>
  The User and Item models and the item routes (\<open>favorite\<close>, \<open>unfavorite\<close>,
  \<open>updateFavoriteCount\<close>, \<open>slugify\<close>, the creation of an item) are named in
  docs/DEVELOPMENT.md and docs/API.md; their code is not among the sources, and the
  definitions of this section follow the specification instead.
\<close>

text \<open>
  Modelled from the spec: the error taxonomy of section 7; the sources declare no error
  type for these operations.
\<close>

datatype core_error = ValidationError | Conflict | Unauthorized | Forbidden | NotFound | Unavailable

text \<open>
  Modelled from the spec: the Identity of the glossary, the resolved caller (user id and
  role); the Token Service that produces it is missing.
\<close>

datatype role = RoleUser | RoleAdmin

record identity =
  ident :: object_id
  role :: role

text \<open>
  Modelled from the spec: the Authorization Gate of section 4.6, whose code is missing:
  true iff the identity is present and its id is the resource owner's, or its role is
  admin where an administrative override is explicitly permitted for the operation.
\<close>

definition canMutate :: "identity option \<Rightarrow> object_id \<Rightarrow> bool \<Rightarrow> bool" where
  "canMutate who resourceOwnerId overridePermitted =
     (case who of
        None \<Rightarrow> False
      | Some i \<Rightarrow> ident i = resourceOwnerId \<or> (role i = RoleAdmin \<and> overridePermitted))"

text \<open>
  Modelled from the spec: \<open>deleteComment(requestorId, commentId)\<close> of the Discussion
  Graph (section 4.5), the route \<open>DELETE /api/items/:slug/comments/:id\<close> of docs/API.md,
  whose code is missing. It fails with \<open>Forbidden\<close> unless the requestor is the comment's
  author; the administrative bypass is a separate path (the route \<open>DELETE /:id\<close> of
  comments.js above), so no override is permitted here. The gate is called before any
  state change (section 4.6). The result is the error, if any, and the comments after
  the call; the author of a comment is its field \<open>seller\<close>.
\<close>

definition deleteComment ::
  "identity \<Rightarrow> object_id \<Rightarrow> comment list \<Rightarrow> core_error option \<times> comment list" where
  "deleteComment requestor commentId cs =
     (case find (\<lambda>c. cid c = commentId) cs of
        None \<Rightarrow> (Some NotFound, cs)
      | Some c \<Rightarrow>
          if canMutate (Some requestor) (seller c) False then (None, remove1 c cs)
          else (Some Forbidden, cs))"

text \<open>
  Modelled from the spec: the User of section 3, whose schema is missing, with the one
  field the favourites need: the set of the Item ids the user has favorited.
\<close>

record user =
  favorites :: "object_id set"

text \<open>
  Modelled from the spec: the Item of section 3, whose schema is missing, with its slug,
  its title and its \<open>favoritesCount\<close>, a non-negative integer.
\<close>

record item_doc =
  slug :: string
  title :: string
  favoritesCount :: nat

text \<open>
  Modelled from the spec: the persistent entities, whose store is missing: independent
  entities keyed by id, with the store's index on \<open>slug\<close> (sections 6 and 9).
\<close>

record market =
  users :: "object_id \<rightharpoonup> user"
  items :: "object_id \<rightharpoonup> item_doc"
  slugIndex :: "string \<rightharpoonup> object_id"

text \<open>
  Modelled from the spec: \<open>favorite(userId, slug)\<close> of the Catalog Graph, whose code is
  missing. Section 4.4: idempotent (re-favoriting is a no-op); on first favorite, add
  the Item id to the User's favorites set and increment \<open>favoritesCount\<close>, the two
  mutations applied together. An unknown caller is \<open>Unauthorized\<close>, an unknown slug
  \<open>NotFound\<close> (section 7).
\<close>

definition favorite :: "object_id \<Rightarrow> string \<Rightarrow> market \<Rightarrow> core_error + market" where
  "favorite userId sl m =
     (case users m userId of
        None \<Rightarrow> Inl Unauthorized
      | Some u \<Rightarrow>
          (case slugIndex m sl of
             None \<Rightarrow> Inl NotFound
           | Some i \<Rightarrow>
               (case items m i of
                  None \<Rightarrow> Inl NotFound
                | Some it \<Rightarrow>
                    if i \<in> favorites u then Inr m
                    else Inr (m\<lparr>users := (users m)(userId \<mapsto> u\<lparr>favorites := insert i (favorites u)\<rparr>),
                                items := (items m)(i \<mapsto> it\<lparr>favoritesCount := favoritesCount it + 1\<rparr>)\<rparr>))))"

text \<open>
  Modelled from the spec: \<open>unfavorite(userId, slug)\<close> of the Catalog Graph, whose code is
  missing. Section 4.4: "on unfavorite, the reverse"; unfavoriting an item that is not a
  favourite is a no-op (section 9). \<open>favoritesCount\<close> is a non-negative integer, so the
  decrement stops at 0.
\<close>

definition unfavorite :: "object_id \<Rightarrow> string \<Rightarrow> market \<Rightarrow> core_error + market" where
  "unfavorite userId sl m =
     (case users m userId of
        None \<Rightarrow> Inl Unauthorized
      | Some u \<Rightarrow>
          (case slugIndex m sl of
             None \<Rightarrow> Inl NotFound
           | Some i \<Rightarrow>
               (case items m i of
                  None \<Rightarrow> Inl NotFound
                | Some it \<Rightarrow>
                    if i \<notin> favorites u then Inr m
                    else Inr (m\<lparr>users := (users m)(userId \<mapsto> u\<lparr>favorites := favorites u - {i}\<rparr>),
                                items := (items m)(i \<mapsto> it\<lparr>favoritesCount := favoritesCount it - 1\<rparr>)\<rparr>))))"

text \<open>
  Modelled from the spec: the favorite and unfavorite requests of section 4.4, whose
  routes are missing, as data, and the service of one request.
\<close>

datatype fav_op = Favorite object_id string | Unfavorite object_id string

definition apply_fav :: "market \<Rightarrow> fav_op \<Rightarrow> core_error + market" where
  "apply_fav m op =
     (case op of Favorite u sl \<Rightarrow> favorite u sl m | Unfavorite u sl \<Rightarrow> unfavorite u sl m)"

text \<open>
  Modelled from the spec: a sequence of favorite and unfavorite requests (section 8),
  each applied as one atomic unit (section 5). A request that fails leaves the market as
  it was, and the next one is served.
\<close>

fun run_favs :: "market \<Rightarrow> fav_op list \<Rightarrow> market" where
  "run_favs m [] = m"
| "run_favs m (op # ops) =
     (case apply_fav m op of Inl e \<Rightarrow> run_favs m ops | Inr m' \<Rightarrow> run_favs m' ops)"

text \<open>
  Modelled from the spec: the distinct Users whose favorites set contains the Item's id
  (section 3).
\<close>

definition favoritedBy :: "market \<Rightarrow> object_id \<Rightarrow> object_id set" where
  "favoritedBy m i = {uid. \<exists>u. users m uid = Some u \<and> i \<in> favorites u}"

text \<open>
  Modelled from the spec: the invariant of the Item in section 3, for a market with
  finitely many Users: \<open>favoritesCount\<close> equals the number of these Users.
\<close>

definition counts_ok :: "market \<Rightarrow> bool" where
  "counts_ok m =
     (finite (dom (users m)) \<and>
      (\<forall>i it. items m i = Some it \<longrightarrow> favoritesCount it = card (favoritedBy m i)))"

text \<open>
  Modelled from the spec: the slug normalisation policy of section 4.4, whose code (the
  \<open>slugify\<close> of the Item model) is missing: lowercase; insert no artificial word
  boundaries beyond the title's own whitespace and punctuation; collapse runs of
  non-alphanumeric characters to a single hyphen; strip leading and trailing hyphens.
  The substitution for an empty result needs the random source and is made by
  \<open>generateSlug\<close> below. The alphanumeric characters are the letters a-z and A-Z and
  the digits, the URL-safe ones.
\<close>

definition isNonAlnum :: "char \<Rightarrow> bool" where
  "isNonAlnum c = (\<not> isAlnum c)"

definition slugNormalize :: "string \<Rightarrow> string" where
  "slugNormalize ttl =
     stripRuns isHyphen (replaceRuns isNonAlnum ''-'' (toLowerCase ttl))"

text \<open>
  Modelled from the spec: the retries of the slug assignment of \<open>createItem\<close>, whose
  code is missing. Section 4.4: a short random disambiguator is appended when a
  collision is detected, generation being retried until the slug is unique; section 5
  bounds the retries and fails with \<open>Conflict\<close> after them; section 8 gives the form
  \<open>vintage-lamp-<suffix>\<close>. \<open>draws\<close> are the random tokens of the successive attempts,
  \<open>taken\<close> tells whether a slug exists already.
\<close>

fun disambiguate :: "(string \<Rightarrow> bool) \<Rightarrow> string \<Rightarrow> string list \<Rightarrow> core_error + string" where
  "disambiguate taken base [] = Inl Conflict"
| "disambiguate taken base (suffix # draws) =
     (if taken (base @ ''-'' @ suffix) then disambiguate taken base draws
      else Inr (base @ ''-'' @ suffix))"

text \<open>
  Modelled from the spec: the slug assignment of \<open>createItem\<close>, whose code is missing.
  Section 4.4: the slug is the normalised title; if it is empty after normalisation, a
  generated random token is substituted; a disambiguator is appended when the slug
  collides. The token is the first of the \<open>draws\<close>, and without a draw the generation
  fails like an exhausted retry.
\<close>

definition generateSlug :: "(string \<Rightarrow> bool) \<Rightarrow> string \<Rightarrow> string list \<Rightarrow> core_error + string" where
  "generateSlug taken ttl draws =
     (let base = slugNormalize ttl
      in if base = []
         then (case draws of
                 [] \<Rightarrow> Inl Conflict
               | token # rest \<Rightarrow>
                   if taken token then disambiguate taken token rest else Inr token)
         else if taken base then disambiguate taken base draws else Inr base)"

text \<open>
  Modelled from the spec: \<open>createItem\<close> of the Catalog Graph (section 4.4), whose code
  is missing, as far as the slug goes: the new Item has the generated slug and no
  favourite, and the slug index learns it. \<open>newId\<close> is the id the store gives the Item.
\<close>

definition createItem ::
  "object_id \<Rightarrow> string \<Rightarrow> string list \<Rightarrow> market \<Rightarrow> core_error + (item_doc \<times> market)" where
  "createItem newId ttl draws m =
     (case generateSlug (\<lambda>s. slugIndex m s \<noteq> None) ttl draws of
        Inl e \<Rightarrow> Inl e
      | Inr s \<Rightarrow>
          (let it = \<lparr>slug = s, title = ttl, favoritesCount = 0\<rparr>
           in Inr (it, m\<lparr>items := (items m)(newId \<mapsto> it),
                          slugIndex := (slugIndex m)(s \<mapsto> newId)\<rparr>)))"

text \<open>Modelled from the spec: the market before any registration or creation.\<close>

definition empty_market :: market where
  "empty_market = \<lparr>users = Map.empty, items = Map.empty, slugIndex = Map.empty\<rparr>"

section \<open>The comment routes: ownership and error handling\<close>

text \<open>
  C7 (as amended). When the persistence call of the listing or of the deletion fails,
  the handler catches the error and answers 500 with a fixed message of its own,
  whatever the error was; the store is left as it was.
\<close>

theorem persistence_error_replaced:
  assumes "fault db = Some err"
  shows "router_get db req = \<lparr>status = 500, json_body = JsonError ''Failed to fetch comments''\<rparr>
         \<and> router_delete db req =
             (\<lparr>status = 500, json_body = JsonError ''Failed to delete comment''\<rparr>, db)"
  using assms
  by (simp add: router_get_def router_delete_def Comment_find_def Comment_findByIdAndDelete_def)

theorem persistence_error_replaced_witness:
  "router_get \<lparr>comments = [], fault = Some (Error ''connection lost'')\<rparr>
     \<lparr>params_id = [], payload_id = None\<rparr>
   = \<lparr>status = 500, json_body = JsonError ''Failed to fetch comments''\<rparr>
   \<and> router_delete \<lparr>comments = [], fault = Some (Error ''connection lost'')\<rparr>
     \<lparr>params_id = ''65a1b2c3d4e5f60718293a4b'', payload_id = None\<rparr>
   = (\<lparr>status = 500, json_body = JsonError ''Failed to delete comment''\<rparr>,
      \<lparr>comments = [], fault = Some (Error ''connection lost'')\<rparr>)"
  using persistence_error_replaced
    [of "\<lparr>comments = [], fault = Some (Error ''connection lost'')\<rparr>" "Error ''connection lost''"]
  by simp

text \<open>
  The claim as stated fails: two different errors of the store give the same answer,
  whose message is the handler's own, so the original error does not reach the caller.
\<close>

theorem error_propagation_counterexample:
  "Error ''connection lost'' \<noteq> Error ''cast to ObjectId failed''
   \<and> router_get \<lparr>comments = [], fault = Some (Error ''connection lost'')\<rparr>
        \<lparr>params_id = [], payload_id = None\<rparr>
     = router_get \<lparr>comments = [], fault = Some (Error ''cast to ObjectId failed'')\<rparr>
        \<lparr>params_id = [], payload_id = None\<rparr>
   \<and> json_body (router_get \<lparr>comments = [], fault = Some (Error ''connection lost'')\<rparr>
        \<lparr>params_id = [], payload_id = None\<rparr>) = JsonError ''Failed to fetch comments''
   \<and> fst (router_delete \<lparr>comments = [], fault = Some (Error ''connection lost'')\<rparr>
        \<lparr>params_id = ''65a1b2c3d4e5f60718293a4b'', payload_id = None\<rparr>)
     = fst (router_delete \<lparr>comments = [], fault = Some (Error ''cast to ObjectId failed'')\<rparr>
        \<lparr>params_id = ''65a1b2c3d4e5f60718293a4b'', payload_id = None\<rparr>)
   \<and> json_body (fst (router_delete \<lparr>comments = [], fault = Some (Error ''connection lost'')\<rparr>
        \<lparr>params_id = ''65a1b2c3d4e5f60718293a4b'', payload_id = None\<rparr>)) = JsonError ''Failed to delete comment''"
  by (simp add: router_get_def router_delete_def Comment_find_def Comment_findByIdAndDelete_def)

section \<open>Slug assignment\<close>

lemma kebab_vintage_lamp: "toKebabCase (JString ''Vintage Lamp'') = Inr ''vintage-lamp''"
  by code_simp

lemma slug_vintage_lamp: "slugNormalize ''Vintage Lamp'' = ''vintage-lamp''"
  by code_simp

text \<open>
  C6. The title "Vintage Lamp" is normalised to \<open>vintage-lamp\<close>, by the policy and by
  \<open>toKebabCase\<close> alike, and this is the slug of the first item created with it; a second item with the same title gets \<open>vintage-lamp-\<close>
  followed by the disambiguating suffix drawn for it.
\<close>

theorem vintage_lamp_slugs:
  "toKebabCase (JString ''Vintage Lamp'') = Inr ''vintage-lamp''
   \<and> slugNormalize ''Vintage Lamp'' = ''vintage-lamp''
   \<and> createItem id1 ''Vintage Lamp'' draws1 empty_market =
       Inr (\<lparr>slug = ''vintage-lamp'', title = ''Vintage Lamp'', favoritesCount = 0\<rparr>,
            \<lparr>users = Map.empty,
             items = [id1 \<mapsto> \<lparr>slug = ''vintage-lamp'', title = ''Vintage Lamp'', favoritesCount = 0\<rparr>],
             slugIndex = [''vintage-lamp'' \<mapsto> id1]\<rparr>)
   \<and> map_sum id (slug \<circ> fst)
        (createItem id2 ''Vintage Lamp'' (suffix # draws2)
          \<lparr>users = Map.empty,
           items = [id1 \<mapsto> \<lparr>slug = ''vintage-lamp'', title = ''Vintage Lamp'', favoritesCount = 0\<rparr>],
           slugIndex = [''vintage-lamp'' \<mapsto> id1]\<rparr>)
       = Inr (''vintage-lamp-'' @ suffix)"
  by (simp add: kebab_vintage_lamp slug_vintage_lamp createItem_def generateSlug_def
        empty_market_def Let_def)

section \<open>Characters\<close>

lemma code_inj: "code c = code d \<longleftrightarrow> c = d"
  by (simp add: code_def)

lemma code_char_of: "n < 256 \<Longrightarrow> code (char_of n) = n"
  by (simp add: code_def)

lemma code_hyphen: "code CHR ''-'' = 45" by (simp add: code_def)
lemma code_underscore: "code CHR ''_'' = 95" by (simp add: code_def)
lemma code_dot: "code CHR ''.'' = 46" by (simp add: code_def)

lemma eq_hyphen: "c = CHR ''-'' \<longleftrightarrow> code c = 45"
  using code_inj[of c "CHR ''-''"] by (simp add: code_hyphen)
lemma eq_underscore: "c = CHR ''_'' \<longleftrightarrow> code c = 95"
  using code_inj[of c "CHR ''_''"] by (simp add: code_underscore)
lemma eq_dot: "c = CHR ''.'' \<longleftrightarrow> code c = 46"
  using code_inj[of c "CHR ''.''"] by (simp add: code_dot)

lemma code_toLowerChar:
  "code (toLowerChar c) =
     (if (65 \<le> code c \<and> code c \<le> 90) \<or> (192 \<le> code c \<and> code c \<le> 222 \<and> code c \<noteq> 215)
      then code c + 32 else code c)"
  by (auto simp: toLowerChar_def isUpperAZ_def code_char_of)

lemmas class_defs = isWhitespace_def isLowerAZ_def isUpperAZ_def isDigit_def isAlnum_def
  isHyphen_def isSpaceUnderscore_def isSeparator3_def isSeparator4_def keptChar_def
  eq_hyphen eq_underscore eq_dot code_hyphen code_underscore code_dot

lemma toLowerChar_not_upper: "\<not> isUpperAZ (toLowerChar c)"
  by (auto simp: class_defs code_toLowerChar)

lemma toLowerChar_idem: "toLowerChar (toLowerChar c) = toLowerChar c"
  by (auto simp: code_inj[symmetric] code_toLowerChar)

lemma toLowerChar_classes:
  "isWhitespace (toLowerChar c) = isWhitespace c"
  "isSpaceUnderscore (toLowerChar c) = isSpaceUnderscore c"
  "isHyphen (toLowerChar c) = isHyphen c"
  "isSeparator3 (toLowerChar c) = isSeparator3 c"
  "isSeparator4 (toLowerChar c) = isSeparator4 c"
  "isAlnum (toLowerChar c) = isAlnum c"
  "isSeparator3 c \<Longrightarrow> toLowerChar c = c"
  by (auto simp: class_defs code_inj[symmetric] code_toLowerChar)

lemma replaceLowerUpper_id:
  "\<forall>c\<in>set xs. \<not> isUpperAZ c \<Longrightarrow> replaceLowerUpper xs = xs"
  by (induction xs rule: replaceLowerUpper.induct) auto

lemma set_replaceRuns: "set (replaceRuns p rep xs) \<subseteq> set rep \<union> {x \<in> set xs. \<not> p x}"
proof (induction p rep xs rule: replaceRuns.induct)
  case (1 p rep)
  then show ?case by simp
next
  case (2 p rep x xs)
  show ?case
  proof (cases "p x")
    case True
    with 2 have "set (replaceRuns p rep (dropWhile p xs)) \<subseteq> set rep \<union> {x \<in> set (dropWhile p xs). \<not> p x}"
      by simp
    moreover have "set (dropWhile p xs) \<subseteq> set xs"
      by (auto dest: set_dropWhileD)
    ultimately show ?thesis using True by auto
  next
    case False
    with 2 show ?thesis by auto
  qed
qed

lemma replaceRuns_id: "\<forall>c\<in>set xs. \<not> p c \<Longrightarrow> replaceRuns p rep xs = xs"
  by (induction xs) auto

lemma replaceRuns_head:
  "xs = [] \<or> \<not> p (hd xs) \<Longrightarrow>
   replaceRuns p rep xs = [] \<or> \<not> p (hd (replaceRuns p rep xs))"
  by (cases xs) auto

lemma dropWhile_replaceRuns:
  "xs = [] \<or> \<not> p (hd xs) \<Longrightarrow> dropWhile p (replaceRuns p rep xs) = replaceRuns p rep xs"
  by (cases xs) auto

lemma replaceRuns_idem:
  "p c \<Longrightarrow> replaceRuns p [c] (replaceRuns p [c] xs) = replaceRuns p [c] xs"
proof (induction p "[c]" xs rule: replaceRuns.induct)
  case (1 p)
  then show ?case by simp
next
  case (2 p x xs)
  show ?case
  proof (cases "p x")
    case True
    have "dropWhile p xs = [] \<or> \<not> p (hd (dropWhile p xs))"
      using hd_dropWhile[of p xs] by blast
    then have "dropWhile p (replaceRuns p [c] (dropWhile p xs)) = replaceRuns p [c] (dropWhile p xs)"
      by (rule dropWhile_replaceRuns)
    with 2 True show ?thesis by simp
  next
    case False
    with 2 show ?thesis by simp
  qed
qed

lemma replaceRuns_last:
  "xs \<noteq> [] \<Longrightarrow> \<not> p (last xs) \<Longrightarrow>
   replaceRuns p rep xs \<noteq> [] \<and> last (replaceRuns p rep xs) = last xs"
proof (induction p rep xs rule: replaceRuns.induct)
  case (1 p rep)
  then show ?case by simp
next
  case (2 p rep x xs)
  show ?case
  proof (cases "p x")
    case True
    with 2 have ne: "xs \<noteq> []" by auto
    with 2 have nl: "\<not> p (last xs)" by simp
    from ne nl have "last xs \<in> set xs" by simp
    with nl have d: "dropWhile p xs \<noteq> []" "last (dropWhile p xs) = last xs"
      by (auto simp: dropWhile_last)
    with 2 True nl have "replaceRuns p rep (dropWhile p xs) \<noteq> [] \<and>
        last (replaceRuns p rep (dropWhile p xs)) = last xs" by simp
    with True ne show ?thesis by simp
  next
    case False
    show ?thesis
    proof (cases "xs = []")
      case True
      with False show ?thesis by simp
    next
      case ne: False
      with 2 False show ?thesis by simp
    qed
  qed
qed

lemma stripRuns_id:
  "xs = [] \<or> (\<not> p (hd xs) \<and> \<not> p (last xs)) \<Longrightarrow> stripRuns p xs = xs"
  by (cases xs) (auto simp: stripRuns_def dropWhile_eq_self_iff hd_rev split: if_splits)

lemma set_stripRuns: "set (stripRuns p xs) \<subseteq> set xs"
  by (auto simp: stripRuns_def dest!: set_dropWhileD)

lemma stripRuns_ends:
  "stripRuns p xs = [] \<or> (\<not> p (hd (stripRuns p xs)) \<and> \<not> p (last (stripRuns p xs)))"
proof (cases "stripRuns p xs = []")
  case True
  then show ?thesis by simp
next
  case False
  let ?d = "dropWhile p xs"
  let ?v = "dropWhile p (rev ?d)"
  from False have v: "?v \<noteq> []" by (simp add: stripRuns_def)
  then have hv: "\<not> p (hd ?v)" by (rule hd_dropWhile)
  from v have d: "?d \<noteq> []" by (auto dest: set_dropWhileD)
  then have hd: "\<not> p (hd ?d)" by (rule hd_dropWhile)
  have "last (stripRuns p xs) = hd ?v" using v by (simp add: stripRuns_def last_rev)
  moreover have "hd (stripRuns p xs) = last ?v" using v by (simp add: stripRuns_def hd_rev)
  moreover have "last ?v = last (rev ?d)"
    using d hd by (intro dropWhile_last[of "hd ?d"]) (auto simp: last_rev)
  ultimately show ?thesis using hv hd d by (simp add: last_rev)
qed

section \<open>The stages of toKebabCase\<close>

lemma toKebabCase_JString: "toKebabCase (JString s) = Inr (kebabString s)"
  by (simp add: toKebabCase_def kebabString_def)

lemma isHyphen_hyphen: "isHyphen CHR ''-''" by (simp add: isHyphen_def)

lemma kebab_chars:
  assumes "c \<in> set (kebabString s)"
  shows "toLowerChar c = c \<and> \<not> isUpperAZ c \<and> \<not> isSpaceUnderscore c"
proof -
  let ?t = "toLowerCase (replaceLowerUpper s)"
  let ?v = "replaceRuns isSpaceUnderscore ''-'' ?t"
  let ?u = "stripRuns isHyphen ?v"
  have "c \<in> set ''-'' \<union> {x \<in> set ?u. \<not> isHyphen x}"
    using assms set_replaceRuns[of isHyphen "''-''" ?u] by (auto simp: kebabString_def)
  then have "c = CHR ''-'' \<or> c \<in> set ?v"
    using set_stripRuns[of isHyphen ?v] by auto
  then have "c = CHR ''-'' \<or> (c \<in> set ?t \<and> \<not> isSpaceUnderscore c)"
    using set_replaceRuns[of isSpaceUnderscore "''-''" ?t] by auto
  then show ?thesis
  proof
    assume "c = CHR ''-''"
    then show ?thesis by (simp add: class_defs code_inj[symmetric] code_toLowerChar)
  next
    assume a: "c \<in> set ?t \<and> \<not> isSpaceUnderscore c"
    then obtain d where "c = toLowerChar d" by (auto simp: toLowerCase_def)
    with a show ?thesis by (simp add: toLowerChar_idem toLowerChar_not_upper)
  qed
qed

lemma kebab_ends:
  "kebabString s = [] \<or>
   (\<not> isHyphen (hd (kebabString s)) \<and> \<not> isHyphen (last (kebabString s)))"
proof -
  let ?u = "stripRuns isHyphen (replaceRuns isSpaceUnderscore ''-'' (toLowerCase (replaceLowerUpper s)))"
  have r: "kebabString s = replaceRuns isHyphen ''-'' ?u" by (simp add: kebabString_def)
  show ?thesis
  proof (cases "?u = []")
    case True
    then show ?thesis by (simp add: kebabString_def)
  next
    case False
    with stripRuns_ends[of isHyphen] have e: "\<not> isHyphen (hd ?u)" "\<not> isHyphen (last ?u)"
      by blast+
    from False e(2) have "replaceRuns isHyphen ''-'' ?u \<noteq> [] \<and> last (replaceRuns isHyphen ''-'' ?u) = last ?u"
      by (rule replaceRuns_last)
    moreover from e(1) have "replaceRuns isHyphen ''-'' ?u = [] \<or> \<not> isHyphen (hd (replaceRuns isHyphen ''-'' ?u))"
      by (intro replaceRuns_head) simp
    ultimately show ?thesis using e(2) r by auto
  qed
qed

lemma kebab_fixed: "kebabString (kebabString s) = kebabString s"
proof -
  let ?r = "kebabString s"
  have 1: "replaceLowerUpper ?r = ?r"
    by (rule replaceLowerUpper_id) (auto dest: kebab_chars)
  have 2: "toLowerCase ?r = ?r"
    unfolding toLowerCase_def by (rule map_idI) (auto dest: kebab_chars)
  have 3: "replaceRuns isSpaceUnderscore ''-'' ?r = ?r"
    by (rule replaceRuns_id) (auto dest: kebab_chars)
  have 4: "stripRuns isHyphen ?r = ?r"
    by (rule stripRuns_id) (rule kebab_ends)
  have 5: "replaceRuns isHyphen ''-'' ?r = ?r"
    unfolding kebabString_def by (rule replaceRuns_idem) (rule isHyphen_hyphen)
  show ?thesis
    by (subst (1) kebabString_def) (simp only: 1 2 3 4 5)
qed

section \<open>Splitting and joining\<close>

lemma splitRuns_ne: "splitRuns p xs \<noteq> []"
  by (cases xs) (auto split: list.splits)

lemma splitRuns_sep: "p x \<Longrightarrow> splitRuns p (x # xs) = [] # splitRuns p (dropWhile p xs)"
  by simp

lemma splitRuns_non:
  "\<not> p x \<Longrightarrow> splitRuns p (x # xs) = (x # hd (splitRuns p xs)) # tl (splitRuns p xs)"
  using splitRuns_ne[of p xs] by (auto split: list.splits)

lemma splitRuns_seps: "\<forall>z\<in>set zs. p z \<Longrightarrow> zs \<noteq> [] \<Longrightarrow> splitRuns p zs = [[], []]"
proof (cases zs)
  case Nil
  assume "zs \<noteq> []"
  with Nil show ?thesis by simp
next
  case (Cons a list)
  assume "\<forall>z\<in>set zs. p z"
  with Cons have "p a" "dropWhile p list = []" by auto
  with Cons show ?thesis by (simp del: dropWhile_eq_Nil_conv)
qed

declare splitRuns.simps(2) [simp del]

lemma join_cons: "ws \<noteq> [] \<Longrightarrow> join sep (w # ws) = w @ sep @ join sep ws"
  by (cases ws) auto

lemma replaceRuns_join: "replaceRuns p sep xs = join sep (splitRuns p xs)"
proof (induction p xs rule: splitRuns.induct)
  case (1 p)
  then show ?case by simp
next
  case (2 p x xs)
  show ?case
  proof (cases "p x")
    case True
    with 2 show ?thesis by (simp add: join_cons splitRuns_ne splitRuns_sep)
  next
    case False
    with 2 have ih: "replaceRuns p sep xs = join sep (splitRuns p xs)" by simp
    obtain w ws where s: "splitRuns p xs = w # ws"
      using splitRuns_ne[of p xs] by (cases "splitRuns p xs") auto
    with False ih show ?thesis by (cases ws) (auto simp: splitRuns_non)
  qed
qed

lemma pieces_cons_sep:
  "p x \<Longrightarrow> nonEmptyPieces p (x # xs) = nonEmptyPieces p (dropWhile p xs)"
  by (simp add: nonEmptyPieces_def splitRuns_sep)

lemma pieces_dropWhile_sub:
  "(\<And>x. q x \<Longrightarrow> p x) \<Longrightarrow> nonEmptyPieces p (dropWhile q xs) = nonEmptyPieces p xs"
proof (induction xs)
  case Nil
  then show ?case by simp
next
  case (Cons x xs)
  show ?case
  proof (cases "q x")
    case True
    then have px: "p x" by (rule Cons.prems)
    have "nonEmptyPieces p (x # xs) = nonEmptyPieces p (dropWhile p xs)"
      using px by (rule pieces_cons_sep)
    also have "\<dots> = nonEmptyPieces p xs"
    proof (cases xs)
      case Nil
      then show ?thesis by simp
    next
      case (Cons y ys)
      then show ?thesis by (cases "p y") (simp_all add: pieces_cons_sep)
    qed
    finally show ?thesis using True Cons by simp
  next
    case False
    then show ?thesis by simp
  qed
qed


lemma splitRuns_append_seps:
  "\<forall>z\<in>set zs. p z \<Longrightarrow>
   splitRuns p (ys @ zs) = splitRuns p ys \<or> splitRuns p (ys @ zs) = splitRuns p ys @ [[]]"
proof (induction p ys rule: splitRuns.induct)
  case (1 p)
  then show ?case using splitRuns_seps[of zs p] by (cases "zs = []") auto
next
  case (2 p x xs)
  show ?case
  proof (cases "p x")
    case True
    show ?thesis
    proof (cases "\<forall>y\<in>set xs. p y")
      case all: True
      with 2 have "dropWhile p (xs @ zs) = []" "dropWhile p xs = []" by auto
      with True show ?thesis by (simp add: splitRuns_sep del: dropWhile_eq_Nil_conv)
    next
      case False
      then have "dropWhile p (xs @ zs) = dropWhile p xs @ zs" by (auto simp add: dropWhile_append)
      with 2 True show ?thesis by (auto simp add: splitRuns_sep)
    qed
  next
    case False
    with 2 have "splitRuns p (xs @ zs) = splitRuns p xs \<or>
                 splitRuns p (xs @ zs) = splitRuns p xs @ [[]]" by simp
    then show ?thesis
      using False splitRuns_ne[of p xs]
      by (cases "splitRuns p xs") (auto simp: splitRuns_non)
  qed
qed

lemma pieces_append_seps:
  "\<forall>z\<in>set zs. p z \<Longrightarrow> nonEmptyPieces p (ys @ zs) = nonEmptyPieces p ys"
  using splitRuns_append_seps[of zs p ys] by (auto simp: nonEmptyPieces_def)

lemma pieces_stripRuns: "nonEmptyPieces p (stripRuns p xs) = nonEmptyPieces p xs"
proof -
  let ?d = "dropWhile p xs"
  have "rev (takeWhile p (rev ?d) @ dropWhile p (rev ?d)) = ?d"
    by (simp only: takeWhile_dropWhile_id rev_rev_ident)
  then have d: "?d = stripRuns p xs @ rev (takeWhile p (rev ?d))"
    by (simp only: stripRuns_def rev_append)
  have "\<forall>z\<in>set (rev (takeWhile p (rev ?d))). p z"
    by (auto dest: set_takeWhileD)
  then have "nonEmptyPieces p (stripRuns p xs @ rev (takeWhile p (rev ?d))) =
             nonEmptyPieces p (stripRuns p xs)"
    by (rule pieces_append_seps)
  with d have "nonEmptyPieces p ?d = nonEmptyPieces p (stripRuns p xs)" by simp
  then show ?thesis by (simp add: pieces_dropWhile_sub)
qed

lemma splitRuns_hd_nonempty:
  "xs \<noteq> [] \<Longrightarrow> \<not> p (hd xs) \<Longrightarrow> hd (splitRuns p xs) \<noteq> []"
  by (cases xs) (auto simp: splitRuns_non)

lemma splitRuns_tl_nonempty:
  "xs \<noteq> [] \<Longrightarrow> \<not> p (last xs) \<Longrightarrow> [] \<notin> set (tl (splitRuns p xs))"
proof (induction p xs rule: splitRuns.induct)
  case (1 p)
  then show ?case by simp
next
  case (2 p x xs)
  show ?case
  proof (cases "p x")
    case True
    with 2 have ne: "xs \<noteq> []" by auto
    with 2 have nl: "\<not> p (last xs)" by simp
    from ne nl have "last xs \<in> set xs" by simp
    with nl have d: "dropWhile p xs \<noteq> []" "last (dropWhile p xs) = last xs"
      by (auto simp: dropWhile_last)
    let ?S = "splitRuns p (dropWhile p xs)"
    from 2 True d nl have "[] \<notin> set (tl ?S)" by simp
    moreover have "hd ?S \<noteq> []"
      using d(1) hd_dropWhile[of p xs] by (intro splitRuns_hd_nonempty) auto
    ultimately have "[] \<notin> set ?S"
      using splitRuns_ne[of p "dropWhile p xs"] by (cases ?S) auto
    with True show ?thesis by (simp add: splitRuns_sep)
  next
    case False
    show ?thesis
    proof (cases "xs = []")
      case True
      with False show ?thesis by (simp add: splitRuns_non)
    next
      case ne: False
      with 2 False have "[] \<notin> set (tl (splitRuns p xs))" by simp
      with False show ?thesis by (simp add: splitRuns_non)
    qed
  qed
qed

lemma splitRuns_no_empty:
  assumes "xs \<noteq> []" "\<not> p (hd xs)" "\<not> p (last xs)"
  shows "[] \<notin> set (splitRuns p xs)"
proof -
  have "hd (splitRuns p xs) \<noteq> []" using assms(1,2) by (rule splitRuns_hd_nonempty)
  moreover have "[] \<notin> set (tl (splitRuns p xs))" using assms(1,3) by (rule splitRuns_tl_nonempty)
  ultimately show ?thesis
    using splitRuns_ne[of p xs] by (cases "splitRuns p xs") auto
qed

lemma pieces_all:
  assumes "xs \<noteq> []" "\<not> p (hd xs)" "\<not> p (last xs)"
  shows "nonEmptyPieces p xs = splitRuns p xs"
  using splitRuns_no_empty[OF assms] by (auto simp: nonEmptyPieces_def filter_id_conv)

lemma replaceRuns_stripped:
  "replaceRuns p sep (stripRuns p xs) = join sep (nonEmptyPieces p xs)"
proof (cases "stripRuns p xs = []")
  case True
  then have "nonEmptyPieces p (stripRuns p xs) = []" by (simp add: nonEmptyPieces_def)
  then have "nonEmptyPieces p xs = []" by (simp add: pieces_stripRuns)
  with True show ?thesis by simp
next
  case False
  with stripRuns_ends[of p xs]
  have "nonEmptyPieces p (stripRuns p xs) = splitRuns p (stripRuns p xs)"
    by (intro pieces_all) auto
  then show ?thesis by (simp add: replaceRuns_join pieces_stripRuns)
qed

lemma pieces_by_parts:
  "nonEmptyPieces p xs =
     filter (\<lambda>w. w \<noteq> []) [hd (splitRuns p xs)] @
     filter (\<lambda>w. w \<noteq> []) (tl (splitRuns p xs))"
  using splitRuns_ne[of p xs] by (cases "splitRuns p xs") (auto simp: nonEmptyPieces_def)

lemma pieces_tl_sep:
  "p x \<Longrightarrow> filter (\<lambda>w. w \<noteq> []) (tl (splitRuns p (x # xs))) = nonEmptyPieces p xs"
  using pieces_dropWhile_sub[of p p xs] by (simp add: splitRuns_sep nonEmptyPieces_def)

lemma splitRuns_replaceRuns:
  assumes pc: "p c" and r: "\<And>x. r x = (p x \<or> q x)"
  shows "hd (splitRuns p (replaceRuns q [c] t)) = hd (splitRuns r t) \<and>
         filter (\<lambda>w. w \<noteq> []) (tl (splitRuns p (replaceRuns q [c] t))) =
         filter (\<lambda>w. w \<noteq> []) (tl (splitRuns r t))"
  using r
proof (induction q "[c]" t rule: replaceRuns.induct)
  case (1 q)
  then show ?case by simp
next
  case (2 q x xs)
  note r = "2.prems"
  show ?case
  proof (cases "q x")
    case True
    let ?R = "replaceRuns q [c] (dropWhile q xs)"
    from True r have rx: "r x" by simp
    from 2 True r have "nonEmptyPieces p ?R = nonEmptyPieces r (dropWhile q xs)"
      by (simp add: pieces_by_parts)
    also have "\<dots> = nonEmptyPieces r xs"
      by (intro pieces_dropWhile_sub) (simp add: r)
    finally have "nonEmptyPieces p ?R = nonEmptyPieces r xs" .
    with True rx pc show ?thesis
      by (simp add: pieces_tl_sep) (simp add: splitRuns_sep)
  next
    case False
    let ?R = "replaceRuns q [c] xs"
    from 2 False r have ih: "hd (splitRuns p ?R) = hd (splitRuns r xs)"
      "filter (\<lambda>w. w \<noteq> []) (tl (splitRuns p ?R)) =
       filter (\<lambda>w. w \<noteq> []) (tl (splitRuns r xs))" by simp_all
    show ?thesis
    proof (cases "p x")
      case True
      with r have rx: "r x" by simp
      from ih have "nonEmptyPieces p ?R = nonEmptyPieces r xs"
        by (simp add: pieces_by_parts)
      with False True rx show ?thesis
        by (simp add: pieces_tl_sep) (simp add: splitRuns_sep)
    next
      case np: False
      with False r have "\<not> r x" by simp
      with False np ih show ?thesis by (simp add: splitRuns_non)
    qed
  qed
qed

lemma pieces_replaceRuns:
  assumes "p c" and "\<And>x. r x = (p x \<or> q x)"
  shows "nonEmptyPieces p (replaceRuns q [c] t) = nonEmptyPieces r t"
  using splitRuns_replaceRuns[of p c r q t] assms by (simp add: pieces_by_parts)

lemma splitRuns_free: "\<forall>c\<in>set xs. \<not> p c \<Longrightarrow> splitRuns p xs = [xs]"
  by (induction xs) (auto simp: splitRuns_non)

section \<open>toKebabCase applied twice\<close>

text \<open>
  C8. \<open>toKebabCase\<close> is idempotent: applied to its own result, it returns that result.
\<close>

theorem toKebabCase_idempotent:
  "\<exists>r. toKebabCase (JString s) = Inr r \<and> toKebabCase (JString r) = Inr r"
  by (simp add: toKebabCase_JString kebab_fixed)

section \<open>toCamelCase and toDotCase\<close>

lemma stripRuns_Nil_iff: "stripRuns p xs = [] \<longleftrightarrow> (\<forall>x\<in>set xs. p x)"
proof -
  have a: "stripRuns p xs = [] \<longleftrightarrow> (\<forall>x\<in>set (dropWhile p xs). p x)"
    by (simp add: stripRuns_def)
  have b: "(\<forall>x\<in>set (dropWhile p xs). p x) \<longleftrightarrow> dropWhile p xs = []"
    by (metis dropWhile_eq_Nil_conv dropWhile_idem)
  show ?thesis unfolding a b by simp
qed

lemma early_exit_iff:
  "(trim s = [] \<or> removeChars isSeparator4 s = []) \<longleftrightarrow> (\<forall>c\<in>set s. isSeparator4 c)"
  by (auto simp: trim_def stripRuns_Nil_iff removeChars_def filter_empty_conv isSeparator4_def)

lemma toCamelCase_JString:
  "toCamelCase (JString s) =
     Inr (if \<forall>c\<in>set s. isSeparator4 c then []
          else if cleanedWords s = [] then []
          else join [] (mapIndexed camelCallback (cleanedWords s)))"
  using early_exit_iff[of s]
  by (simp add: toCamelCase_def cleanedWords_def Let_def)

lemma toDotCase_JString:
  "toDotCase (JString s) =
     Inr (if \<forall>c\<in>set s. isSeparator4 c then []
          else if cleanedWords s = [] then []
          else join ''.'' (map toLowerCase (cleanedWords s)))"
  using early_exit_iff[of s]
  by (simp add: toDotCase_def cleanedWords_def Let_def)

lemma splitRuns_piece:
  "w \<in> set (splitRuns p xs) \<Longrightarrow> c \<in> set w \<Longrightarrow> \<not> p c \<and> c \<in> set xs"
proof (induction p xs arbitrary: w rule: splitRuns.induct)
  case (1 p)
  then show ?case by simp
next
  case (2 p x xs)
  show ?case
  proof (cases "p x")
    case True
    with 2 have "w \<in> set (splitRuns p (dropWhile p xs))" by (auto simp: splitRuns_sep)
    with 2 True have "\<not> p c \<and> c \<in> set (dropWhile p xs)" by blast
    then show ?thesis by (auto dest: set_dropWhileD)
  next
    case False
    from 2(3) False have "w = x # hd (splitRuns p xs) \<or> w \<in> set (tl (splitRuns p xs))"
      by (simp add: splitRuns_non)
    then show ?thesis
    proof
      assume w: "w = x # hd (splitRuns p xs)"
      have "hd (splitRuns p xs) \<in> set (splitRuns p xs)"
        using splitRuns_ne[of p xs] by simp
      with 2 False w show ?thesis by auto
    next
      assume "w \<in> set (tl (splitRuns p xs))"
      then have "w \<in> set (splitRuns p xs)"
        using splitRuns_ne[of p xs] by (auto dest: list.set_sel(2))
      with 2 False show ?thesis by auto
    qed
  qed
qed

lemma cleanedWords_pieces: "cleanedWords s = nonEmptyPieces isSeparator4 (filter keptChar s)"
  using pieces_stripRuns[of isSeparator4 "filter keptChar s"]
  by (simp add: cleanedWords_def nonEmptyPieces_def)

lemma cleanedWords_word:
  assumes "w \<in> set (cleanedWords s)"
  shows "w \<noteq> [] \<and> (\<forall>c\<in>set w. isAlnum c \<and> \<not> isSeparator4 c)"
proof -
  from assms have w: "w \<noteq> []" "w \<in> set (splitRuns isSeparator4 (filter keptChar s))"
    by (auto simp: cleanedWords_pieces nonEmptyPieces_def)
  have "isAlnum c \<and> \<not> isSeparator4 c" if "c \<in> set w" for c
    using splitRuns_piece[OF w(2) that] by (auto simp: keptChar_def)
  with w(1) show ?thesis by blast
qed

lemma splitRuns_word_sep:
  "\<forall>c\<in>set w. \<not> p c \<Longrightarrow> p c \<Longrightarrow>
   splitRuns p (w @ c # rest) = w # splitRuns p (dropWhile p rest)"
  by (induction w) (auto simp: splitRuns_sep splitRuns_non)

lemma hd_join: "w \<noteq> [] \<Longrightarrow> hd (join sep (w # ws)) = hd w"
  by (cases ws) auto

lemma join_nonempty: "w \<noteq> [] \<Longrightarrow> join sep (w # ws) \<noteq> []"
  by (cases ws) auto

lemma splitRuns_join:
  "ws \<noteq> [] \<Longrightarrow> \<forall>w\<in>set ws. w \<noteq> [] \<and> (\<forall>c\<in>set w. \<not> p c) \<Longrightarrow> p c \<Longrightarrow>
   splitRuns p (join [c] ws) = ws"
proof (induction "[c]" ws rule: join.induct)
  case 1
  then show ?case by simp
next
  case (2 w)
  then show ?case by (simp add: splitRuns_free)
next
  case (3 w v vs)
  let ?rest = "join [c] (v # vs)"
  from 3 have v: "v \<noteq> []" "\<not> p (hd v)" by auto
  then have "?rest \<noteq> []" "hd ?rest = hd v" by (simp_all add: join_nonempty hd_join)
  with v have "dropWhile p ?rest = ?rest" by (simp add: dropWhile_eq_self_iff)
  moreover from 3 have "splitRuns p ?rest = v # vs" by simp
  moreover from 3 have "splitRuns p (w @ c # ?rest) = w # splitRuns p (dropWhile p ?rest)"
    by (intro splitRuns_word_sep) auto
  ultimately show ?case by simp
qed

lemma set_join: "set (join sep ws) \<subseteq> set sep \<union> \<Union>(set ` set ws)"
  by (induction sep ws rule: join.induct) auto

lemma last_join:
  "ws \<noteq> [] \<Longrightarrow> last ws \<noteq> [] \<Longrightarrow>
   join sep ws \<noteq> [] \<and> last (join sep ws) = last (last ws)"
  by (induction sep ws rule: join.induct) auto

lemma mapIndexed_map_aux:
  "map (\<lambda>(index, word). f word index) (enumerate n (map g ws)) =
   map (\<lambda>(index, word). f (g word) index) (enumerate n ws)"
  by (induction ws arbitrary: n) auto

lemma camelCallback_lower: "camelCallback (toLowerCase w) i = camelCallback w i"
  by (simp add: camelCallback_def toLowerCase_def toLowerChar_idem o_def)

lemma mapIndexed_lower:
  "mapIndexed camelCallback (map toLowerCase ws) = mapIndexed camelCallback ws"
  by (simp add: mapIndexed_def mapIndexed_map_aux camelCallback_lower)

lemma cleanedWords_dotted:
  assumes ne: "cleanedWords s \<noteq> []"
  shows "cleanedWords (join ''.'' (map toLowerCase (cleanedWords s))) = map toLowerCase (cleanedWords s)"
    and "\<not> (\<forall>c\<in>set (join ''.'' (map toLowerCase (cleanedWords s))). isSeparator4 c)"
proof -
  let ?W = "map toLowerCase (cleanedWords s)"
  let ?d = "join ''.'' ?W"
  have W: "\<forall>w\<in>set ?W. w \<noteq> [] \<and> (\<forall>c\<in>set w. isAlnum c \<and> \<not> isSeparator4 c)"
    using cleanedWords_word[of _ s] by (auto simp: toLowerCase_def toLowerChar_classes)
  from ne have Wne: "?W \<noteq> []" by simp
  have dot: "isSeparator4 CHR ''.''" by (simp add: isSeparator4_def)
  have kept: "filter keptChar ?d = ?d"
  proof -
    have "keptChar c" if "c \<in> set ?d" for c
      using that set_join[of "''.''" ?W] W dot by (auto simp: keptChar_def)
    then show ?thesis by simp
  qed
  obtain w ws where c: "?W = w # ws" using Wne by (cases ?W) auto
  with W have w: "w \<noteq> []" "\<not> isSeparator4 (hd w)" by auto
  then have hd: "?d \<noteq> []" "\<not> isSeparator4 (hd ?d)"
    unfolding c by (simp_all add: join_nonempty hd_join)
  from Wne have "last ?W \<in> set ?W" by (rule last_in_set)
  with W have l: "last ?W \<noteq> []" "\<forall>c\<in>set (last ?W). \<not> isSeparator4 c" by blast+
  from l(1) have "last (last ?W) \<in> set (last ?W)" by (rule last_in_set)
  with l(2) have "\<not> isSeparator4 (last (last ?W))" by blast
  moreover from Wne l(1) have "last ?d = last (last ?W)"
    using last_join[of ?W "''.''"] by blast
  ultimately have "\<not> isSeparator4 (last ?d)" by simp
  with hd have strip: "stripRuns isSeparator4 ?d = ?d" by (intro stripRuns_id) simp
  have split: "splitRuns isSeparator4 ?d = ?W"
    using Wne W dot by (intro splitRuns_join) auto
  have f: "filter (\<lambda>word. length word > 0) ?W = ?W" using W by (auto simp: filter_id_conv)
  have "cleanedWords ?d = filter (\<lambda>word. length word > 0)
          (splitRuns isSeparator4 (stripRuns isSeparator4 (filter keptChar ?d)))"
    by (subst cleanedWords_def) (simp only: Let_def)
  also have "\<dots> = filter (\<lambda>word. length word > 0) ?W"
    by (simp only: kept strip split)
  finally show "cleanedWords ?d = ?W"
    by (simp only: f)
  from hd show "\<not> (\<forall>c\<in>set ?d. isSeparator4 c)"
    by (metis list.set_sel(1))
qed

lemma splitRuns_cong:
  "\<forall>c\<in>set xs. p c = q c \<Longrightarrow> splitRuns p xs = splitRuns q xs"
proof (induction p xs rule: splitRuns.induct)
  case (1 p)
  then show ?case by simp
next
  case (2 p x xs)
  then have pq: "p x = q x" "\<forall>c\<in>set xs. p c = q c" by simp_all
  then have d: "dropWhile p xs = dropWhile q xs"
    by (intro dropWhile_cong) auto
  show ?case
  proof (cases "p x")
    case True
    have "\<forall>c\<in>set (dropWhile p xs). p c = q c"
      using pq(2) by (auto dest: set_dropWhileD)
    with 2 True have "splitRuns p (dropWhile p xs) = splitRuns q (dropWhile p xs)" by simp
    with True pq d show ?thesis by (simp add: splitRuns_sep)
  next
    case False
    with 2 pq have "splitRuns p xs = splitRuns q xs" by simp
    with False pq show ?thesis by (simp add: splitRuns_non)
  qed
qed

lemma isAlnum_not_separator: "isAlnum c \<Longrightarrow> \<not> isSeparator4 c \<and> \<not> isSeparator3 c"
  by (auto simp: class_defs)

lemma separator4_is_3: "isAlnum c \<or> isSeparator3 c \<Longrightarrow> isSeparator4 c = isSeparator3 c"
  by (auto simp: class_defs)

lemma stripRuns_decomp:
  "dropWhile p xs = stripRuns p xs @ rev (takeWhile p (rev (dropWhile p xs)))"
proof -
  let ?d = "dropWhile p xs"
  have "rev (takeWhile p (rev ?d) @ dropWhile p (rev ?d)) = ?d"
    by (simp only: takeWhile_dropWhile_id rev_rev_ident)
  then show ?thesis by (simp only: stripRuns_def rev_append)
qed

lemma splitRuns_trailing:
  assumes "xs \<noteq> []" and "\<not> p (hd xs)"
  shows "splitRuns p xs = nonEmptyPieces p xs \<or> splitRuns p xs = nonEmptyPieces p xs @ [[]]"
proof -
  let ?u = "stripRuns p xs"
  let ?zs = "rev (takeWhile p (rev (dropWhile p xs)))"
  from assms have d: "dropWhile p xs = xs" by (simp add: dropWhile_eq_self_iff)
  have xs: "xs = ?u @ ?zs" using stripRuns_decomp[of p xs] d by simp
  have zs: "\<forall>z\<in>set ?zs. p z" by (auto dest: set_takeWhileD)
  from assms have "\<not> (\<forall>x\<in>set xs. p x)" by (metis list.set_sel(1))
  then have une: "?u \<noteq> []" by (simp add: stripRuns_Nil_iff)
  with stripRuns_ends[of p xs] have "splitRuns p ?u = nonEmptyPieces p ?u"
    by (intro pieces_all[symmetric]) auto
  then have u: "splitRuns p ?u = nonEmptyPieces p xs" by (simp add: pieces_stripRuns)
  from zs have "splitRuns p (?u @ ?zs) = splitRuns p ?u \<or>
                splitRuns p (?u @ ?zs) = splitRuns p ?u @ [[]]"
    by (rule splitRuns_append_seps)
  with xs u show ?thesis by metis
qed

lemma mapIndexed_snoc: "mapIndexed f (ws @ [w]) = mapIndexed f ws @ [f w (length ws)]"
  by (simp add: mapIndexed_def enumerate_append_eq)

lemma join_Nil_concat: "join [] ws = concat ws"
  by (induction "[]::string" ws rule: join.induct) auto

lemma camelCallback_Nil: "camelCallback [] i = []"
  by (simp add: camelCallback_def toLowerCase_def toUpperCase_def charAt0_def slice1_def)

lemma camel_trailing_empty:
  "join [] (mapIndexed camelCallback (ws @ [[]])) = join [] (mapIndexed camelCallback ws)"
  by (simp add: mapIndexed_snoc join_Nil_concat camelCallback_Nil)

text \<open>
  C10. For the functions of unnamed/part\_001, converting to dot.case first and then to
  camelCase gives what converting to camelCase directly gives, for every string.
\<close>

theorem toCamelCase_toDotCase:
  "\<exists>d. toDotCase (JString s) = Inr d \<and> toCamelCase (JString d) = toCamelCase (JString s)"
proof (cases "(\<forall>c\<in>set s. isSeparator4 c) \<or> cleanedWords s = []")
  case True
  then have "toDotCase (JString s) = Inr []" "toCamelCase (JString s) = Inr []"
    by (auto simp: toDotCase_JString toCamelCase_JString)
  moreover have "toCamelCase (JString []) = Inr []" by (simp add: toCamelCase_JString)
  ultimately show ?thesis by simp
next
  case False
  let ?d = "join ''.'' (map toLowerCase (cleanedWords s))"
  from False have ne: "cleanedWords s \<noteq> []" by simp
  from False have ns: "\<not> (\<forall>c\<in>set s. isSeparator4 c)" by simp
  have d: "toDotCase (JString s) = Inr ?d"
    by (simp only: toDotCase_JString ns ne if_False)
  have c: "toCamelCase (JString s) = Inr (join [] (mapIndexed camelCallback (cleanedWords s)))"
    by (simp only: toCamelCase_JString ns ne if_False)
  note w = cleanedWords_dotted[OF ne]
  from ne have ne': "map toLowerCase (cleanedWords s) \<noteq> []" by simp
  have "toCamelCase (JString ?d) =
        Inr (join [] (mapIndexed camelCallback (map toLowerCase (cleanedWords s))))"
    by (simp only: toCamelCase_JString w ne' if_False)
  with c have "toCamelCase (JString ?d) = toCamelCase (JString s)"
    by (simp only: mapIndexed_lower)
  with d show ?thesis by blast
qed

text \<open>
  C9 (as amended). The \<open>toCamelCase\<close> of few\_shot\_prompt.js and the one of
  unnamed/part\_001 return the same result for every string made only of the letters
  a-z and A-Z, digits, whitespace, underscores and hyphens that begins with a letter or
  a digit or has no letter and no digit at all.
\<close>

theorem toCamelCase_agree:
  assumes chars: "\<forall>c\<in>set s. isAlnum c \<or> isSeparator3 c"
    and start: "(s \<noteq> [] \<and> \<not> isSeparator3 (hd s)) \<or> (\<forall>c\<in>set s. isSeparator3 c)"
  shows "toCamelCase (JString s) = Inr (few_shot_toCamelCase s)"
proof (cases "\<forall>c\<in>set s. isSeparator3 c")
  case True
  then have "\<forall>c\<in>set s. isSeparator4 c" by (auto simp: isSeparator3_def isSeparator4_def)
  then have a: "toCamelCase (JString s) = Inr []" by (simp add: toCamelCase_JString)
  have "few_shot_toCamelCase s = []"
  proof (cases "s = []")
    case True
    then show ?thesis
      by (simp add: few_shot_toCamelCase_def mapIndexed_def camelCallback_Nil)
  next
    case False
    with True have "splitRuns isSeparator3 s = [[], []]" by (intro splitRuns_seps)
    then show ?thesis
      by (simp add: few_shot_toCamelCase_def mapIndexed_def camelCallback_Nil)
  qed
  with a show ?thesis by simp
next
  case False
  with start have ne: "s \<noteq> []" and h: "\<not> isSeparator3 (hd s)" by auto
  from ne have hs: "hd s \<in> set s" by simp
  with chars h have "isAlnum (hd s)" by blast
  then have "\<not> isSeparator4 (hd s)" by (simp add: isAlnum_not_separator)
  with hs have ns: "\<not> (\<forall>c\<in>set s. isSeparator4 c)" by blast
  have "\<forall>c\<in>set s. keptChar c"
    using chars by (auto simp: keptChar_def isSeparator3_def isSeparator4_def)
  then have kept: "filter keptChar s = s" by simp
  have "splitRuns isSeparator4 s = splitRuns isSeparator3 s"
    using chars by (intro splitRuns_cong) (simp add: separator4_is_3)
  then have w: "cleanedWords s = nonEmptyPieces isSeparator3 s"
    by (simp add: cleanedWords_pieces kept nonEmptyPieces_def)
  let ?W = "nonEmptyPieces isSeparator3 s"
  from ne h have t: "splitRuns isSeparator3 s = ?W \<or> splitRuns isSeparator3 s = ?W @ [[]]"
    by (rule splitRuns_trailing)
  from ne h have "hd (splitRuns isSeparator3 s) \<noteq> []" by (rule splitRuns_hd_nonempty)
  with t have Wne: "?W \<noteq> []" using splitRuns_ne[of isSeparator3 s] by auto
  have a: "toCamelCase (JString s) = Inr (join [] (mapIndexed camelCallback ?W))"
    using Wne by (simp only: toCamelCase_JString ns w if_False)
  from t have "few_shot_toCamelCase s = join [] (mapIndexed camelCallback ?W)"
    unfolding few_shot_toCamelCase_def Let_def
    by (auto simp only: camel_trailing_empty)
  with a show ?thesis by simp
qed

theorem toCamelCase_agree_witness:
  "toCamelCase (JString ''first_name 2'') = Inr (few_shot_toCamelCase ''first_name 2'')
   \<and> few_shot_toCamelCase ''first_name 2'' = ''firstName2''"
proof -
  have a: "\<forall>c\<in>set ''first_name 2''. isAlnum c \<or> isSeparator3 c" by code_simp
  have b: "(''first_name 2'' \<noteq> [] \<and> \<not> isSeparator3 (hd ''first_name 2''))
           \<or> (\<forall>c\<in>set ''first_name 2''. isSeparator3 c)" by code_simp
  have c: "few_shot_toCamelCase ''first_name 2'' = ''firstName2''" by code_simp
  from toCamelCase_agree[OF a b] c show ?thesis by blast
qed

text \<open>
  The claim as stated fails: only the function of unnamed/part\_001 takes the dot for a
  separator.
\<close>

theorem toCamelCase_differ_counterexample:
  "few_shot_toCamelCase ''api.key.name'' = ''api.key.name''
   \<and> toCamelCase (JString ''api.key.name'') = Inr ''apiKeyName''"
  by code_simp

section \<open>The slug policy\<close>

text \<open>
  The utility \<open>toKebabCase\<close> is general text processing and not the slug policy: it
  splits at a camelCase transition and keeps punctuation, where the policy does neither.
\<close>

lemma toKebabCase_not_the_policy:
  "toKebabCase (JString ''camelCase@x'') = Inr ''camel-case@x''
   \<and> slugNormalize ''camelCase@x'' = ''camelcase-x''"
  by code_simp

lemma isNonAlnum_hyphen: "isNonAlnum CHR ''-''"
  by (simp add: isNonAlnum_def class_defs)

lemma isHyphen_nonAlnum: "isHyphen c \<Longrightarrow> isNonAlnum c"
  by (simp add: isHyphen_def isNonAlnum_hyphen)

lemma isNonAlnum_toLowerChar: "isNonAlnum (toLowerChar c) = isNonAlnum c"
  by (simp add: isNonAlnum_def toLowerChar_classes)

lemma no_adjacentHyphens_replaced:
  "p CHR ''-'' \<Longrightarrow> \<not> adjacentHyphens (replaceRuns p ''-'' xs)"
proof (induction p "''-''" xs rule: replaceRuns.induct)
  case (1 p)
  then show ?case by simp
next
  case (2 p x xs)
  show ?case
  proof (cases "p x")
    case True
    let ?w = "replaceRuns p ''-'' (dropWhile p xs)"
    have "dropWhile p xs = [] \<or> \<not> p (hd (dropWhile p xs))"
      using hd_dropWhile[of p xs] by blast
    then have "?w = [] \<or> \<not> p (hd ?w)" by (rule replaceRuns_head)
    with 2 have h: "?w = [] \<or> hd ?w \<noteq> CHR ''-''" by auto
    from 2 True have ih: "\<not> adjacentHyphens ?w" by simp
    from h ih True show ?thesis by (cases ?w) auto
  next
    case False
    with 2 have x: "x \<noteq> CHR ''-''" by auto
    from 2 False have ih: "\<not> adjacentHyphens (replaceRuns p ''-'' xs)" by simp
    from False ih x show ?thesis
      by (cases "replaceRuns p ''-'' xs") auto
  qed
qed

lemma adjacentHyphens_Cons: "adjacentHyphens xs \<Longrightarrow> adjacentHyphens (x # xs)"
  by (cases xs) auto

lemma adjacentHyphens_prepend: "adjacentHyphens xs \<Longrightarrow> adjacentHyphens (ys @ xs)"
  by (induction ys) (auto simp: adjacentHyphens_Cons)

lemma adjacentHyphens_append: "adjacentHyphens xs \<Longrightarrow> adjacentHyphens (xs @ ys)"
  by (induction xs rule: adjacentHyphens.induct) auto

lemma stripRuns_middle:
  "xs = takeWhile p xs @ stripRuns p xs @ rev (takeWhile p (rev (dropWhile p xs)))"
proof -
  have "xs = takeWhile p xs @ dropWhile p xs" by simp
  also have "dropWhile p xs = stripRuns p xs @ rev (takeWhile p (rev (dropWhile p xs)))"
    by (rule stripRuns_decomp)
  finally show ?thesis .
qed

lemma no_adjacentHyphens_stripRuns:
  assumes "\<not> adjacentHyphens xs"
  shows "\<not> adjacentHyphens (stripRuns p xs)"
proof
  assume "adjacentHyphens (stripRuns p xs)"
  then have "adjacentHyphens (takeWhile p xs @ stripRuns p xs @ rev (takeWhile p (rev (dropWhile p xs))))"
    by (intro adjacentHyphens_prepend adjacentHyphens_append)
  with assms stripRuns_middle[of xs p] show False by simp
qed

lemma replaceRuns_single_hyphens:
  "\<not> adjacentHyphens xs \<Longrightarrow> replaceRuns isHyphen ''-'' xs = xs"
proof (induction xs)
  case Nil
  then show ?case by simp
next
  case (Cons x xs)
  then have ih: "replaceRuns isHyphen ''-'' xs = xs"
    by (auto dest: adjacentHyphens_Cons)
  show ?case
  proof (cases "isHyphen x")
    case True
    with Cons.prems have "xs = [] \<or> \<not> isHyphen (hd xs)"
      by (cases xs) (auto simp: isHyphen_def)
    then have "dropWhile isHyphen xs = xs" by (simp add: dropWhile_eq_self_iff)
    moreover from True have "x = CHR ''-''" by (simp add: isHyphen_def)
    ultimately show ?thesis using True ih by simp
  next
    case False
    with ih show ?thesis by simp
  qed
qed

lemma splitRuns_map:
  "(\<And>x. p (f x) = p x) \<Longrightarrow> splitRuns p (map f xs) = map (map f) (splitRuns p xs)"
proof (induction p xs rule: splitRuns.induct)
  case (1 p)
  then show ?case by simp
next
  case (2 p x xs)
  show ?case
  proof (cases "p x")
    case True
    have "dropWhile p (map f xs) = map f (dropWhile p xs)"
      using 2(3) by (simp add: dropWhile_map o_def)
    with 2 True show ?thesis by (simp add: splitRuns_sep)
  next
    case False
    with 2 have "splitRuns p (map f xs) = map (map f) (splitRuns p xs)" by simp
    with False 2(3) splitRuns_ne[of p xs] show ?thesis
      by (cases "splitRuns p xs") (auto simp: splitRuns_non)
  qed
qed

lemma pieces_map:
  "(\<And>x. p (f x) = p x) \<Longrightarrow> nonEmptyPieces p (map f xs) = map (map f) (nonEmptyPieces p xs)"
  by (simp add: nonEmptyPieces_def splitRuns_map filter_map o_def)

lemma slugNormalize_pieces:
  "slugNormalize s = join ''-'' (map toLowerCase (nonEmptyPieces isNonAlnum s))"
proof -
  let ?t = "toLowerCase s"
  let ?v = "replaceRuns isNonAlnum ''-'' ?t"
  have "\<not> adjacentHyphens ?v"
    by (rule no_adjacentHyphens_replaced) (rule isNonAlnum_hyphen)
  then have "\<not> adjacentHyphens (stripRuns isHyphen ?v)"
    by (rule no_adjacentHyphens_stripRuns)
  then have "stripRuns isHyphen ?v = replaceRuns isHyphen ''-'' (stripRuns isHyphen ?v)"
    by (simp add: replaceRuns_single_hyphens)
  also have "\<dots> = join ''-'' (nonEmptyPieces isHyphen ?v)"
    by (rule replaceRuns_stripped)
  also have "nonEmptyPieces isHyphen ?v = nonEmptyPieces isNonAlnum ?t"
    by (rule pieces_replaceRuns) (auto simp: isHyphen_hyphen isHyphen_nonAlnum)
  also have "nonEmptyPieces isNonAlnum ?t = map toLowerCase (nonEmptyPieces isNonAlnum s)"
    unfolding toLowerCase_def
    by (subst pieces_map) (simp_all add: isNonAlnum_toLowerChar toLowerCase_def[abs_def])
  finally show ?thesis by (simp add: slugNormalize_def)
qed

lemma slugNormalize_chars:
  assumes "c \<in> set (slugNormalize s)"
  shows "isLowerAZ c \<or> isDigit c \<or> c = CHR ''-''"
proof -
  from assms have "c \<in> set (replaceRuns isNonAlnum ''-'' (toLowerCase s))"
    using set_stripRuns[of isHyphen] by (auto simp: slugNormalize_def)
  then have "c = CHR ''-'' \<or> (c \<in> set (toLowerCase s) \<and> \<not> isNonAlnum c)"
    using set_replaceRuns[of isNonAlnum "''-''" "toLowerCase s"] by auto
  then show ?thesis
  proof
    assume "c = CHR ''-''"
    then show ?thesis by simp
  next
    assume a: "c \<in> set (toLowerCase s) \<and> \<not> isNonAlnum c"
    then obtain d where "c = toLowerChar d" by (auto simp: toLowerCase_def)
    then have "\<not> isUpperAZ c" by (simp add: toLowerChar_not_upper)
    with a show ?thesis by (auto simp: isNonAlnum_def isAlnum_def)
  qed
qed

lemma slugNormalize_ends:
  "slugNormalize s \<noteq> [] \<Longrightarrow>
   hd (slugNormalize s) \<noteq> CHR ''-'' \<and> last (slugNormalize s) \<noteq> CHR ''-''"
  using stripRuns_ends[of isHyphen "replaceRuns isNonAlnum ''-'' (toLowerCase s)"]
  by (auto simp: slugNormalize_def isHyphen_def)

lemma slugNormalize_single_hyphens: "\<not> adjacentHyphens (slugNormalize s)"
  unfolding slugNormalize_def
  by (intro no_adjacentHyphens_stripRuns no_adjacentHyphens_replaced isNonAlnum_hyphen)

lemma pieces_alnum:
  assumes "w \<in> set (nonEmptyPieces isNonAlnum s)"
  shows "w \<noteq> [] \<and> (\<forall>c\<in>set w. isAlnum c)"
proof -
  from assms have w: "w \<noteq> []" "w \<in> set (splitRuns isNonAlnum s)"
    by (auto simp: nonEmptyPieces_def)
  have "isAlnum c" if "c \<in> set w" for c
    using splitRuns_piece[OF w(2) that] by (simp add: isNonAlnum_def)
  with w(1) show ?thesis by blast
qed
















text \<open>
  C3. For every title, slug normalisation collapses every run of non-alphanumeric
  characters into a single hyphen and strips leading and trailing hyphens: the slug is
  the alphanumeric runs of the title, in lower case, joined by single hyphens. So it
  consists only of lowercase letters, digits and hyphens, with no hyphen at either end
  and no two hyphens in a row.
\<close>

theorem slugNormalize_runs:
  "slugNormalize s =
     join ''-'' (map toLowerCase
       (filter (\<lambda>word. length word > 0) (splitRuns isNonAlnum s)))
   \<and> (\<forall>w\<in>set (filter (\<lambda>word. length word > 0) (splitRuns isNonAlnum s)).
         \<forall>c\<in>set w. isAlnum c)
   \<and> (\<forall>c\<in>set (slugNormalize s). isLowerAZ c \<or> isDigit c \<or> c = CHR ''-'')
   \<and> (slugNormalize s \<noteq> [] \<longrightarrow>
         hd (slugNormalize s) \<noteq> CHR ''-'' \<and> last (slugNormalize s) \<noteq> CHR ''-'')
   \<and> \<not> adjacentHyphens (slugNormalize s)"
proof -
  have a: "slugNormalize s =
     join ''-'' (map toLowerCase
       (filter (\<lambda>word. length word > 0) (splitRuns isNonAlnum s)))"
    using slugNormalize_pieces[of s] by (simp add: nonEmptyPieces_def)
  have b: "\<forall>w\<in>set (filter (\<lambda>word. length word > 0) (splitRuns isNonAlnum s)).
         \<forall>c\<in>set w. isAlnum c"
    using pieces_alnum[of _ s] by (auto simp: nonEmptyPieces_def)
  have c: "\<forall>c\<in>set (slugNormalize s). isLowerAZ c \<or> isDigit c \<or> c = CHR ''-''"
    using slugNormalize_chars by blast
  have d: "slugNormalize s \<noteq> [] \<longrightarrow>
         hd (slugNormalize s) \<noteq> CHR ''-'' \<and> last (slugNormalize s) \<noteq> CHR ''-''"
    using slugNormalize_ends by blast
  from a b c d slugNormalize_single_hyphens[of s] show ?thesis by blast
qed

theorem slugNormalize_runs_witness:
  "slugNormalize ''  My_Lamp @@ Home!'' = ''my-lamp-home''
   \<and> filter (\<lambda>word. length word > 0) (splitRuns isNonAlnum ''  My_Lamp @@ Home!'')
       = [''My'', ''Lamp'', ''Home'']
   \<and> last (slugNormalize ''  My_Lamp @@ Home!'') \<noteq> CHR ''-''"
proof -
  note t = slugNormalize_runs[of "''  My_Lamp @@ Home!''"]
  have p: "filter (\<lambda>word. length word > 0) (splitRuns isNonAlnum ''  My_Lamp @@ Home!'')
       = [''My'', ''Lamp'', ''Home'']" by code_simp
  have l: "join ''-'' (map toLowerCase [''My'', ''Lamp'', ''Home'']) = ''my-lamp-home''"
    by code_simp
  from t have "slugNormalize ''  My_Lamp @@ Home!'' =
     join ''-'' (map toLowerCase
       (filter (\<lambda>word. length word > 0) (splitRuns isNonAlnum ''  My_Lamp @@ Home!'')))"
    by (rule conjunct1)
  then have e: "slugNormalize ''  My_Lamp @@ Home!'' = ''my-lamp-home''"
    by (simp only: p l)
  then have "slugNormalize ''  My_Lamp @@ Home!'' \<noteq> []" by simp
  with t have "last (slugNormalize ''  My_Lamp @@ Home!'') \<noteq> CHR ''-''" by blast
  with e p show ?thesis by blast
qed





section \<open>Deleting a comment\<close>

text \<open>
  C1. \<open>deleteComment\<close> fails with \<open>Forbidden\<close> and leaves the comments as they were
  whenever the requestor is not the author of the comment, for every existing comment
  and every requestor, an administrator included; only the author's call deletes.
\<close>

theorem deleteComment_only_author:
  assumes "find (\<lambda>c. cid c = commentId) cs = Some c"
    and "ident requestor \<noteq> seller c"
  shows "deleteComment requestor commentId cs = (Some Forbidden, cs)
         \<and> (\<forall>who. fst (deleteComment who commentId cs) = None \<longrightarrow> ident who = seller c)
         \<and> (\<forall>who. ident who = seller c \<longrightarrow>
               deleteComment who commentId cs = (None, remove1 c cs))"
  using assms by (auto simp: deleteComment_def canMutate_def)

theorem deleteComment_only_author_witness:
  "deleteComment \<lparr>ident = ''bob'', role = RoleAdmin\<rparr> ''c1''
     [\<lparr>cid = ''c0'', body = ''first'', seller = ''bob'', item = ''i1''\<rparr>,
      \<lparr>cid = ''c1'', body = ''nice lamp'', seller = ''alice'', item = ''i1''\<rparr>]
   = (Some Forbidden,
      [\<lparr>cid = ''c0'', body = ''first'', seller = ''bob'', item = ''i1''\<rparr>,
       \<lparr>cid = ''c1'', body = ''nice lamp'', seller = ''alice'', item = ''i1''\<rparr>])"
proof -
  have f: "find (\<lambda>c. cid c = ''c1'')
     [\<lparr>cid = ''c0'', body = ''first'', seller = ''bob'', item = ''i1''\<rparr>,
      \<lparr>cid = ''c1'', body = ''nice lamp'', seller = ''alice'', item = ''i1''\<rparr>]
     = Some \<lparr>cid = ''c1'', body = ''nice lamp'', seller = ''alice'', item = ''i1''\<rparr>"
    by simp
  have n: "ident \<lparr>ident = ''bob'', role = RoleAdmin\<rparr> \<noteq>
           seller \<lparr>cid = ''c1'', body = ''nice lamp'', seller = ''alice'', item = ''i1''\<rparr>"
    by simp
  from deleteComment_only_author[OF f n] show ?thesis by (rule conjunct1)
qed

section \<open>Favourites\<close>

lemma favoritedBy_subset: "favoritedBy m i \<subseteq> dom (users m)"
  by (auto simp: favoritedBy_def)

lemma favoritedBy_finite: "finite (dom (users m)) \<Longrightarrow> finite (favoritedBy m i)"
  using favoritedBy_subset[of m i] by (rule finite_subset)

lemma favoritedBy_add:
  assumes "users m uid = Some u"
  shows "favoritedBy (m\<lparr>users := (users m)(uid \<mapsto> u\<lparr>favorites := insert i (favorites u)\<rparr>),
                         items := its\<rparr>) j =
         (if j = i then insert uid (favoritedBy m i) else favoritedBy m j)"
  using assms by (auto simp: favoritedBy_def)

lemma favoritedBy_remove:
  assumes "users m uid = Some u"
  shows "favoritedBy (m\<lparr>users := (users m)(uid \<mapsto> u\<lparr>favorites := favorites u - {i}\<rparr>),
                         items := its\<rparr>) j =
         (if j = i then favoritedBy m i - {uid} else favoritedBy m j)"
  using assms by (auto simp: favoritedBy_def)

lemma favorite_counts_ok:
  assumes ok: "counts_ok m" and f: "favorite uid sl m = Inr m'"
  shows "counts_ok m'"
proof -
  from f obtain u i it where
    u: "users m uid = Some u" and i: "slugIndex m sl = Some i" and it: "items m i = Some it"
    by (auto simp: favorite_def split: option.splits)
  show ?thesis
  proof (cases "i \<in> favorites u")
    case True
    with f u i it ok show ?thesis by (simp add: favorite_def)
  next
    case False
    let ?m' = "m\<lparr>users := (users m)(uid \<mapsto> u\<lparr>favorites := insert i (favorites u)\<rparr>),
                 items := (items m)(i \<mapsto> it\<lparr>favoritesCount := favoritesCount it + 1\<rparr>)\<rparr>"
    from f u i it False have m': "m' = ?m'" by (simp add: favorite_def)
    from ok have fin: "finite (dom (users m))"
      and cnt: "\<And>j jt. items m j = Some jt \<Longrightarrow> favoritesCount jt = card (favoritedBy m j)"
      by (auto simp: counts_ok_def)
    from u have dom: "dom (users ?m') = dom (users m)" by auto
    from u False have notin: "uid \<notin> favoritedBy m i" by (auto simp: favoritedBy_def)
    have step: "favoritesCount jt = card (favoritedBy ?m' j)" if "items ?m' j = Some jt" for j jt
    proof (cases "j = i")
      case True
      with that have "favoritesCount jt = favoritesCount it + 1" by auto
      also have "\<dots> = card (favoritedBy m i) + 1" using cnt[OF it] by simp
      also have "\<dots> = card (insert uid (favoritedBy m i))"
        using notin favoritedBy_finite[OF fin, of i] by simp
      finally show ?thesis using True by (simp add: favoritedBy_add[OF u])
    next
      case False
      with that have "items m j = Some jt" by simp
      with False show ?thesis by (simp add: favoritedBy_add[OF u] cnt)
    qed
    show ?thesis unfolding m' counts_ok_def
    proof (intro conjI allI impI)
      show "finite (dom (users ?m'))" using fin by (simp only: dom)
    next
      fix j jt
      assume "items ?m' j = Some jt"
      then show "favoritesCount jt = card (favoritedBy ?m' j)" by (rule step)
    qed
  qed
qed

lemma unfavorite_counts_ok:
  assumes ok: "counts_ok m" and f: "unfavorite uid sl m = Inr m'"
  shows "counts_ok m'"
proof -
  from f obtain u i it where
    u: "users m uid = Some u" and i: "slugIndex m sl = Some i" and it: "items m i = Some it"
    by (auto simp: unfavorite_def split: option.splits)
  show ?thesis
  proof (cases "i \<in> favorites u")
    case False
    with f u i it ok show ?thesis by (simp add: unfavorite_def)
  next
    case True
    let ?m' = "m\<lparr>users := (users m)(uid \<mapsto> u\<lparr>favorites := favorites u - {i}\<rparr>),
                 items := (items m)(i \<mapsto> it\<lparr>favoritesCount := favoritesCount it - 1\<rparr>)\<rparr>"
    from f u i it True have m': "m' = ?m'" by (simp add: unfavorite_def)
    from ok have fin: "finite (dom (users m))"
      and cnt: "\<And>j jt. items m j = Some jt \<Longrightarrow> favoritesCount jt = card (favoritedBy m j)"
      by (auto simp: counts_ok_def)
    from u have dom: "dom (users ?m') = dom (users m)" by auto
    from u True have isin: "uid \<in> favoritedBy m i" by (auto simp: favoritedBy_def)
    have step: "favoritesCount jt = card (favoritedBy ?m' j)" if "items ?m' j = Some jt" for j jt
    proof (cases "j = i")
      case True
      with that have "favoritesCount jt = favoritesCount it - 1" by auto
      also have "\<dots> = card (favoritedBy m i) - 1" using cnt[OF it] by simp
      also have "\<dots> = card (favoritedBy m i - {uid})"
        using isin by (simp add: card_Diff_singleton)
      finally show ?thesis using True by (simp add: favoritedBy_remove[OF u])
    next
      case False
      with that have "items m j = Some jt" by simp
      with False show ?thesis by (simp add: favoritedBy_remove[OF u] cnt)
    qed
    show ?thesis unfolding m' counts_ok_def
    proof (intro conjI allI impI)
      show "finite (dom (users ?m'))" using fin by (simp only: dom)
    next
      fix j jt
      assume "items ?m' j = Some jt"
      then show "favoritesCount jt = card (favoritedBy ?m' j)" by (rule step)
    qed
  qed
qed

lemma apply_fav_counts_ok: "counts_ok m \<Longrightarrow> apply_fav m op = Inr m' \<Longrightarrow> counts_ok m'"
  by (cases op) (auto simp: apply_fav_def dest: favorite_counts_ok unfavorite_counts_ok)

lemma run_favs_counts_ok: "counts_ok m \<Longrightarrow> counts_ok (run_favs m ops)"
proof (induction ops arbitrary: m)
  case Nil
  then show ?case by simp
next
  case (Cons op ops)
  show ?case
  proof (cases "apply_fav m op")
    case (Inl e)
    with Cons show ?thesis by simp
  next
    case (Inr m')
    with Cons.prems have "counts_ok m'" by (rule apply_fav_counts_ok)
    with Cons.IH Inr show ?thesis by simp
  qed
qed

lemma run_favs_append: "run_favs m (xs @ ys) = run_favs (run_favs m xs) ys"
  by (induction xs arbitrary: m) (auto split: sum.splits)

lemma favorite_twice: "favorite uid sl m = Inr m' \<Longrightarrow> favorite uid sl m' = Inr m'"
  by (auto simp: favorite_def split: option.splits if_splits)

lemma favorite_repeated:
  "run_favs m [Favorite uid sl, Favorite uid sl] = run_favs m [Favorite uid sl]"
  by (cases "favorite uid sl m") (auto simp: apply_fav_def favorite_twice)

text \<open>
  C2. From a market in which every Item's \<open>favoritesCount\<close> is the number of Users
  whose favorites contain it, any sequence of favorite and unfavorite requests leads to
  a market with the same property; and favoriting again right after a favorite changes
  nothing.
\<close>

theorem favoritesCount_invariant:
  assumes "counts_ok m"
  shows "(\<forall>i it. items (run_favs m ops) i = Some it \<longrightarrow>
            favoritesCount it = card (favoritedBy (run_favs m ops) i))
         \<and> run_favs m (ops @ [Favorite uid sl, Favorite uid sl]) =
           run_favs m (ops @ [Favorite uid sl])"
proof -
  from assms have "counts_ok (run_favs m ops)" by (rule run_favs_counts_ok)
  then show ?thesis
    by (simp only: run_favs_append favorite_repeated) (simp add: counts_ok_def)
qed

theorem favoritesCount_invariant_witness:
  "card (favoritedBy
     (run_favs
        \<lparr>users = [''alice'' \<mapsto> \<lparr>favorites = {}\<rparr>, ''bob'' \<mapsto> \<lparr>favorites = {}\<rparr>],
         items = [''i1'' \<mapsto> \<lparr>slug = ''vintage-lamp'', title = ''Vintage Lamp'', favoritesCount = 0\<rparr>],
         slugIndex = [''vintage-lamp'' \<mapsto> ''i1'']\<rparr>
        [Favorite ''alice'' ''vintage-lamp'', Favorite ''alice'' ''vintage-lamp'',
         Favorite ''bob'' ''vintage-lamp'', Unfavorite ''alice'' ''vintage-lamp''])
     ''i1'') = 1"
proof -
  let ?m = "\<lparr>users = [''alice'' \<mapsto> \<lparr>favorites = {}\<rparr>, ''bob'' \<mapsto> \<lparr>favorites = {}\<rparr>],
         items = [''i1'' \<mapsto> \<lparr>slug = ''vintage-lamp'', title = ''Vintage Lamp'', favoritesCount = 0\<rparr>],
         slugIndex = [''vintage-lamp'' \<mapsto> ''i1'']\<rparr>"
  let ?ops = "[Favorite ''alice'' ''vintage-lamp'', Favorite ''alice'' ''vintage-lamp'',
         Favorite ''bob'' ''vintage-lamp'', Unfavorite ''alice'' ''vintage-lamp'']"
  have ok: "counts_ok ?m"
    by (auto simp: counts_ok_def favoritedBy_def split: if_splits)
  have it: "items (run_favs ?m ?ops) ''i1'' =
            Some \<lparr>slug = ''vintage-lamp'', title = ''Vintage Lamp'', favoritesCount = 1\<rparr>"
    by (simp add: apply_fav_def favorite_def unfavorite_def)
  from favoritesCount_invariant[OF ok, of ?ops] it show ?thesis
    by (metis item_doc.select_convs(3))
qed

end
